theory Spec2Isabelle
  imports Main "HOL-Library.Word"
begin

section \<open>Go runtime and standard library\<close>

text \<open>
  The ring of \<^verbatim>\<open>consistent.go\<close> is a struct with a hash function, a slice of
  positions and a map from position to member. Go's \<^verbatim>\<open>int\<close> is taken at 64 bits:
  every stored position is \<^verbatim>\<open>int(uint32)\<close>, hence in \<open>[0, 2^32)\<close>, and the only
  arithmetic on positions is \<open>\<plusminus> 1\<close>, so no operation of the ring can wrap around
  (see \<open>Hash_bounds\<close> and \<open>keys_bounds\<close>); positions are therefore \<open>int\<close>.
  Slice indices and lengths are \<open>nat\<close> where the code cannot make them negative.
  One call runs at a time here, so the read/write lock is not part of the state.
\<close>

text \<open>The run-time panics that the ring's code can reach.\<close>

datatype panic =
    IndexOutOfRange int nat   \<comment> \<open>index, length\<close>
  | MakeSliceLenOutOfRange int

text \<open>\<^verbatim>\<open>a[i]\<close> on a slice: a panic outside \<open>[0, len(a))\<close>.\<close>

definition index_slice :: "'a list \<Rightarrow> int \<Rightarrow> panic + 'a" where
  "index_slice a i =
     (if 0 \<le> i \<and> nat i < length a then Inr (a ! nat i)
      else Inl (IndexOutOfRange i (length a)))"

text \<open>\<^verbatim>\<open>m[k]\<close> on a \<^verbatim>\<open>map[int]string\<close>: the zero value \<^verbatim>\<open>""\<close> for a missing key.\<close>

definition index_map :: "(int \<rightharpoonup> string) \<Rightarrow> int \<Rightarrow> string" where
  "index_map hm k = (case hm k of None \<Rightarrow> [] | Some v \<Rightarrow> v)"

text \<open>
  \<^verbatim>\<open>make([]string, count)\<close>: a panic for a negative length, else zero values
  (the limit of what can be allocated is not modelled).
\<close>

definition make_strings :: "int \<Rightarrow> panic + string list" where
  "make_strings count =
     (if count < 0 then Inl (MakeSliceLenOutOfRange count)
      else Inr (replicate (nat count) []))"

text \<open>
  \<^verbatim>\<open>sort.Search(n, f)\<close> of the standard library: the loop
  \<^verbatim>\<open>i, j := 0, n; for i < j { h := int(uint(i+j) >> 1); if !f(h) { i = h + 1 } else { j = h } }; return i\<close>.
  The shift through \<^verbatim>\<open>uint\<close> is the midpoint \<open>(i + j) div 2\<close> for every pair of
  slice indices.
\<close>

function Search_loop :: "(nat \<Rightarrow> bool) \<Rightarrow> nat \<Rightarrow> nat \<Rightarrow> nat" where
  "Search_loop f i j =
     (if i < j
      then (if \<not> f ((i + j) div 2)
            then Search_loop f ((i + j) div 2 + 1) j
            else Search_loop f i ((i + j) div 2))
      else i)"
  by pat_completeness auto
termination
  by (relation "measure (\<lambda>(f, i, j). j - i)") auto

declare Search_loop.simps [simp del]

definition Search :: "nat \<Rightarrow> (nat \<Rightarrow> bool) \<Rightarrow> nat" where
  "Search n f = Search_loop f 0 n"

text \<open>\<^verbatim>\<open>sort.SearchInts(a, x)\<close> is \<^verbatim>\<open>Search(len(a), func(i) { return a[i] >= x })\<close>.\<close>

definition SearchInts :: "int list \<Rightarrow> int \<Rightarrow> nat" where
  "SearchInts a x = Search (length a) (\<lambda>i. a ! i \<ge> x)"

text \<open>\<^verbatim>\<open>sort.Ints(a)\<close> sorts in increasing order.\<close>

definition Ints :: "int list \<Rightarrow> int list" where
  "Ints a = sort a"

text \<open>\<^verbatim>\<open>sort.Sort(sort.Reverse(sort.IntSlice(a)))\<close> sorts in decreasing order.\<close>

definition SortReverse :: "int list \<Rightarrow> int list" where
  "SortReverse a = rev (sort a)"

section \<open>The ring\<close>

text \<open>
  \<^verbatim>\<open>consistent.go\<close> is present in two listings. The second one (lines 190-401) has
  \<^verbatim>\<open>Has\<close>, \<^verbatim>\<open>NextN\<close> and \<^verbatim>\<open>PrevN\<close>, and \<^verbatim>\<open>Get\<close> is \<^verbatim>\<open>Next\<close> there; the definitions
  below embed it. The struct, \<^verbatim>\<open>New\<close>, \<^verbatim>\<open>IsEmpty\<close>, \<^verbatim>\<open>Hash\<close>, \<^verbatim>\<open>Add\<close>, \<^verbatim>\<open>Remove\<close> and
  \<^verbatim>\<open>next\<close> are the same in both. What only the first listing has is embedded
  further down.
\<close>

type_synonym Hash = "8 word list \<Rightarrow> 32 word"

record Consistent =
  hash :: Hash
  keys :: "int list"
  hashMap :: "int \<rightharpoonup> string"

text \<open>\<^verbatim>\<open>[]byte(key)\<close>: a Go string is its bytes.\<close>

definition bytes :: "string \<Rightarrow> 8 word list" where
  "bytes key = map of_char key"

text \<open>
  \<^verbatim>\<open>New(fn)\<close>. The default \<^verbatim>\<open>crc32.ChecksumIEEE\<close> belongs to the standard
  library and is a parameter here.
\<close>

definition New :: "Hash \<Rightarrow> Hash option \<Rightarrow> Consistent" where
  "New ChecksumIEEE fn =
     \<lparr>hash = (case fn of None \<Rightarrow> ChecksumIEEE | Some f \<Rightarrow> f),
      keys = [],
      hashMap = Map.empty\<rparr>"

definition IsEmpty :: "Consistent \<Rightarrow> bool" where
  "IsEmpty m = (length (keys m) = 0)"

definition Hash :: "Consistent \<Rightarrow> string \<Rightarrow> int" where
  "Hash m key = uint (hash m (bytes key))"

text \<open>\<^verbatim>\<open>Add\<close> returns the ring after the call and the position.\<close>

definition Add :: "Consistent \<Rightarrow> string \<Rightarrow> Consistent \<times> int" where
  "Add m key =
     (let h = Hash m key;
          m1 = (if hashMap m h = None
                then m\<lparr>keys := Ints (keys m @ [h])\<rparr>
                else m)
      in (m1\<lparr>hashMap := (hashMap m1)(h \<mapsto> key)\<rparr>, h))"

definition Remove :: "Consistent \<Rightarrow> string \<Rightarrow> Consistent" where
  "Remove m key =
     (let h = Hash m key;
          i = SearchInts (keys m) h;
          m1 = (if i < length (keys m) \<and> keys m ! i = h
                then m\<lparr>keys := take i (keys m) @ drop (i + 1) (keys m)\<rparr>
                else m);
          m2 = m1\<lparr>hashMap := (hashMap m1)(h := None)\<rparr>
      in m2\<lparr>keys := Ints (keys m2)\<rparr>)"

definition Has :: "Consistent \<Rightarrow> string \<Rightarrow> bool" where
  "Has m key = (hashMap m (Hash m key) \<noteq> None)"

text \<open>
  The internal searches of the second listing of \<^verbatim>\<open>consistent.go\<close> (lines 378-401).
  The closures read \<^verbatim>\<open>rev[i]\<close> and \<^verbatim>\<open>m.keys[i]\<close> only at indices that
  \<^verbatim>\<open>sort.Search\<close> keeps below the length (\<open>Search_cong\<close>); the final read
  \<^verbatim>\<open>rev[i]\<close>, \<^verbatim>\<open>m.keys[i]\<close> panics on an empty slice.
\<close>

definition prev :: "Consistent \<Rightarrow> int \<Rightarrow> panic + int" where
  "prev m h =
     (let rv = SortReverse (keys m);
          i = Search (length rv) (\<lambda>i. rv ! i \<le> h);
          i' = (if i = length rv then 0 else i)
      in index_slice rv (int i'))"

definition "next" :: "Consistent \<Rightarrow> int \<Rightarrow> panic + int" where
  "next m h =
     (let i = Search (length (keys m)) (\<lambda>i. keys m ! i > h);
          i' = (if i = length (keys m) then 0 else i)
      in index_slice (keys m) (int i'))"

definition Next :: "Consistent \<Rightarrow> string \<Rightarrow> panic + string" where
  "Next m key =
     (if IsEmpty m then Inr []
      else (case next m (Hash m key) of
              Inl e \<Rightarrow> Inl e
            | Inr index \<Rightarrow> Inr (index_map (hashMap m) index)))"

definition Get :: "Consistent \<Rightarrow> string \<Rightarrow> panic + string" where
  "Get m key = Next m key"

text \<open>
  The loop of \<^verbatim>\<open>NextN\<close>: \<^verbatim>\<open>for i := 0; i <= count; i++ { hash = m.next(hash); locations[i] = m.hashMap[hash] }\<close>.
\<close>

function NextN_loop ::
  "Consistent \<Rightarrow> string list \<Rightarrow> int \<Rightarrow> int \<Rightarrow> int \<Rightarrow> panic + string list" where
  "NextN_loop m locations h i count =
     (if i \<le> count
      then (case next m h of
              Inl e \<Rightarrow> Inl e
            | Inr h' \<Rightarrow>
                (if 0 \<le> i \<and> nat i < length locations
                 then NextN_loop m (locations[nat i := index_map (hashMap m) h']) h' (i + 1) count
                 else Inl (IndexOutOfRange i (length locations))))
      else Inr locations)"
  by pat_completeness auto
termination
  by (relation "measure (\<lambda>(m, locations, h, i, count). nat (count + 1 - i))") auto

declare NextN_loop.simps [simp del]

definition NextN :: "Consistent \<Rightarrow> string \<Rightarrow> int \<Rightarrow> panic + string list" where
  "NextN m key count =
     (if IsEmpty m then Inr []
      else (case make_strings count of
              Inl e \<Rightarrow> Inl e
            | Inr locations \<Rightarrow> NextN_loop m locations (Hash m key) 0 count))"

text \<open>
  The loop of \<^verbatim>\<open>PrevN\<close>: \<^verbatim>\<open>for i := 0; i < count; i++ { locations[i] = m.hashMap[index]; index = m.prev(index - 1) }\<close>.
\<close>

function PrevN_loop ::
  "Consistent \<Rightarrow> string list \<Rightarrow> int \<Rightarrow> int \<Rightarrow> int \<Rightarrow> panic + string list" where
  "PrevN_loop m locations index i count =
     (if i < count
      then (if 0 \<le> i \<and> nat i < length locations
            then (case prev m (index - 1) of
                    Inl e \<Rightarrow> Inl e
                  | Inr index' \<Rightarrow>
                      PrevN_loop m (locations[nat i := index_map (hashMap m) index]) index' (i + 1) count)
            else Inl (IndexOutOfRange i (length locations)))
      else Inr locations)"
  by pat_completeness auto
termination
  by (relation "measure (\<lambda>(m, locations, index, i, count). nat (count - i))") auto

declare PrevN_loop.simps [simp del]

definition PrevN :: "Consistent \<Rightarrow> string \<Rightarrow> int \<Rightarrow> panic + string list" where
  "PrevN m key count =
     (if IsEmpty m then Inr []
      else (case make_strings count of
              Inl e \<Rightarrow> Inl e
            | Inr locations \<Rightarrow>
                (case prev m (Hash m key) of
                   Inl e \<Rightarrow> Inl e
                 | Inr index \<Rightarrow> PrevN_loop m locations index 0 count)))"

definition Range :: "Consistent \<Rightarrow> string \<Rightarrow> panic + int \<times> int" where
  "Range m host =
     (if IsEmpty m then Inr (0, 0)
      else (let to = Hash m host in
            case prev m (to - 1) of
              Inl e \<Rightarrow> Inl e
            | Inr p \<Rightarrow> Inr (p + 1, to)))"

subsection \<open>The first listing of consistent.go\<close>

text \<open>
  \<^verbatim>\<open>GetFromHash\<close> exists only in the first listing (lines 98-108), where it calls
  that listing's \<^verbatim>\<open>prev\<close> (lines 160-175: \<^verbatim>\<open>if i == len(rev) { i -= 1 }\<close>) and where
  \<^verbatim>\<open>Get\<close> (lines 83-94) has the same body after hashing the key. The two are
  embedded under the names \<open>prev_1\<close> and \<open>Get_1\<close>.
\<close>

definition prev_1 :: "Consistent \<Rightarrow> int \<Rightarrow> panic + int" where
  "prev_1 m h =
     (let rv = SortReverse (keys m);
          i = int (Search (length rv) (\<lambda>i. rv ! i \<le> h));
          i' = (if i = int (length rv) then i - 1 else i)
      in index_slice rv i')"

definition Get_1 :: "Consistent \<Rightarrow> string \<Rightarrow> panic + string" where
  "Get_1 m key =
     (if IsEmpty m then Inr []
      else (case prev_1 m (Hash m key) of
              Inl e \<Rightarrow> Inl e
            | Inr index \<Rightarrow> Inr (index_map (hashMap m) index)))"

definition GetFromHash :: "Consistent \<Rightarrow> int \<Rightarrow> panic + string" where
  "GetFromHash m h =
     (if IsEmpty m then Inr []
      else (case prev_1 m h of
              Inl e \<Rightarrow> Inl e
            | Inr index \<Rightarrow> Inr (index_map (hashMap m) index)))"

subsection \<open>Sequences of mutations\<close>

datatype op = OpAdd string | OpRemove string

fun apply_op :: "Consistent \<Rightarrow> op \<Rightarrow> Consistent" where
  "apply_op m (OpAdd key) = fst (Add m key)"
| "apply_op m (OpRemove key) = Remove m key"

fun run :: "Consistent \<Rightarrow> op list \<Rightarrow> Consistent" where
  "run m [] = m"
| "run m (x # xs) = run (apply_op m x) xs"

text \<open>
  What every ring built by \<^verbatim>\<open>New\<close>, \<^verbatim>\<open>Add\<close> and \<^verbatim>\<open>Remove\<close> satisfies
  (\<open>ring_inv_run\<close>): the positions are strictly ascending, they are the key set
  of the map, and each member sits at the position of its own hash.
\<close>

definition ring_inv :: "Consistent \<Rightarrow> bool" where
  "ring_inv m \<longleftrightarrow>
     sorted_wrt (<) (keys m) \<and>
     set (keys m) = dom (hashMap m) \<and>
     (\<forall>p k. hashMap m p = Some k \<longrightarrow> Hash m k = p)"

subsection \<open>Concrete rings\<close>

text \<open>A toy hash function for concrete rings: the sum of the key's bytes.\<close>

definition byte_sum :: Hash where
  "byte_sum bs = foldr (\<lambda>b acc. ucast b + acc) bs 0"

definition ring_A :: Consistent where
  "ring_A = run (New byte_sum (Some byte_sum)) [OpAdd ''A'']"

definition ring_AC :: Consistent where
  "ring_AC = run (New byte_sum (Some byte_sum)) [OpAdd ''C'', OpAdd ''A'']"

definition ring_ABC :: Consistent where
  "ring_ABC = run (New byte_sum (Some byte_sum)) [OpAdd ''B'', OpAdd ''C'', OpAdd ''A'']"


section \<open>The binary search\<close>

lemma Search_loop_spec:
  "\<forall>a b. a \<le> b \<and> b < n \<and> f a \<longrightarrow> f b \<Longrightarrow>
   i \<le> j \<Longrightarrow> j \<le> n \<Longrightarrow> \<forall>k<i. \<not> f k \<Longrightarrow> \<forall>k. j \<le> k \<and> k < n \<longrightarrow> f k \<Longrightarrow>
   Search_loop f i j \<le> n \<and> (\<forall>k<Search_loop f i j. \<not> f k) \<and>
   (\<forall>k. Search_loop f i j \<le> k \<and> k < n \<longrightarrow> f k)"
proof (induction f i j rule: Search_loop.induct)
  case (1 f i j)
  note mono = "1.prems"(1)
  show ?case
  proof (cases "i < j")
    case False
    have "Search_loop f i j = i"
      using False by (simp add: Search_loop.simps [of f i j])
    moreover have "i \<le> n" "\<forall>k. i \<le> k \<and> k < n \<longrightarrow> f k"
      using False "1.prems"(2,3,5) by auto
    ultimately show ?thesis
      using "1.prems"(4) by simp
  next
    case True
    let ?h = "(i + j) div 2"
    from True have hb: "i \<le> ?h" "?h < j" by auto
    have hn: "?h < n" using hb "1.prems"(3) by simp
    show ?thesis
    proof (cases "f ?h")
      case False
      have below: "\<forall>k<?h + 1. \<not> f k"
      proof (intro allI impI)
        fix k assume "k < ?h + 1"
        then have "k \<le> ?h" by simp
        then show "\<not> f k" using mono [rule_format, of k ?h] hn False by blast
      qed
      have step: "Search_loop f i j = Search_loop f (?h + 1) j"
        using True False by (simp add: Search_loop.simps [of f i j])
      have le: "?h + 1 \<le> j" using hb by simp
      show ?thesis
        unfolding step
        by (rule "1.IH"(1) [OF True False mono le "1.prems"(3) below "1.prems"(5)])
    next
      case fh: True
      have above: "\<forall>k. ?h \<le> k \<and> k < n \<longrightarrow> f k"
      proof (intro allI impI)
        fix k assume "?h \<le> k \<and> k < n"
        then show "f k" using mono [rule_format, of ?h k] fh by blast
      qed
      have step: "Search_loop f i j = Search_loop f i ?h"
        using True fh by (simp add: Search_loop.simps [of f i j])
      have le: "?h \<le> n" using hn by simp
      have fh': "\<not> \<not> f ?h" using fh by simp
      show ?thesis
        unfolding step
        by (rule "1.IH"(2) [OF True fh' mono hb(1) le "1.prems"(4) above])
    qed
  qed
qed

lemma Search_spec:
  assumes "\<forall>a b. a \<le> b \<and> b < n \<and> f a \<longrightarrow> f b"
  shows "Search n f \<le> n \<and> (\<forall>k<Search n f. \<not> f k) \<and> (\<forall>k. Search n f \<le> k \<and> k < n \<longrightarrow> f k)"
proof -
  have "0 \<le> n" "n \<le> n" "\<forall>k<0::nat. \<not> f k" "\<forall>k. n \<le> k \<and> k < n \<longrightarrow> f k"
    by auto
  from Search_loop_spec [OF assms this] show ?thesis
    unfolding Search_def .
qed

lemma Search_loop_cong:
  "j \<le> n \<Longrightarrow> \<forall>k<n. f k = g k \<Longrightarrow> Search_loop f i j = Search_loop g i j"
proof (induction f i j rule: Search_loop.induct)
  case (1 f i j)
  show ?case
  proof (cases "i < j")
    case False
    then show ?thesis by (simp add: Search_loop.simps [of _ i j])
  next
    case True
    let ?h = "(i + j) div 2"
    from True "1.prems" have hn: "?h < n" "?h \<le> n" by auto
    then have eq: "f ?h = g ?h" using "1.prems" by blast
    show ?thesis
    proof (cases "f ?h")
      case False
      have "Search_loop f (?h + 1) j = Search_loop g (?h + 1) j"
        by (rule "1.IH"(1) [OF True False "1.prems"])
      then show ?thesis
        using eq True False by (simp add: Search_loop.simps [of _ i j])
    next
      case fh: True
      have fh': "\<not> \<not> f ?h" using fh by simp
      have "Search_loop f i ?h = Search_loop g i ?h"
        by (rule "1.IH"(2) [OF True fh' hn(2) "1.prems"(2)])
      then show ?thesis
        using eq True fh by (simp add: Search_loop.simps [of _ i j])
    qed
  qed
qed

lemma Search_cong: "\<forall>k<n. f k = g k \<Longrightarrow> Search n f = Search n g"
  unfolding Search_def by (rule Search_loop_cong [of n n]) simp_all

lemma Search_loop_bounds: "i \<le> j \<Longrightarrow> i \<le> Search_loop f i j \<and> Search_loop f i j \<le> j"
proof (induction f i j rule: Search_loop.induct)
  case (1 f i j)
  show ?case
  proof (cases "i < j")
    case False
    then have "Search_loop f i j = i" by (simp add: Search_loop.simps [of f i j])
    then show ?thesis using "1.prems" by simp
  next
    case True
    let ?h = "(i + j) div 2"
    from True have hb: "i \<le> ?h" "?h + 1 \<le> j" by auto
    show ?thesis
    proof (cases "f ?h")
      case False
      have step: "Search_loop f i j = Search_loop f (?h + 1) j"
        using True False by (simp add: Search_loop.simps [of f i j])
      from "1.IH"(1) [OF True False hb(2)] hb show ?thesis
        unfolding step by linarith
    next
      case fh: True
      have fh': "\<not> \<not> f ?h" using fh by simp
      have step: "Search_loop f i j = Search_loop f i ?h"
        using True fh by (simp add: Search_loop.simps [of f i j])
      from "1.IH"(2) [OF True fh' hb(1)] hb show ?thesis
        unfolding step by linarith
    qed
  qed
qed

lemma Search_le: "Search n f \<le> n"
  using Search_loop_bounds [of 0 n f] by (simp add: Search_def)

section \<open>Searching sorted positions\<close>

lemma Search_gt_sorted:
  fixes h :: int
  assumes "sorted xs"
  defines "r \<equiv> Search (length xs) (\<lambda>i. xs ! i > h)"
  shows "r \<le> length xs"
    and "r < length xs \<Longrightarrow> (\<exists>k\<in>set xs. h < k) \<and> xs ! r = Min {k \<in> set xs. h < k}"
    and "r = length xs \<Longrightarrow> \<not> (\<exists>k\<in>set xs. h < k)"
proof -
  have mono: "\<forall>a b. a \<le> b \<and> b < length xs \<and> h < xs ! a \<longrightarrow> h < xs ! b"
  proof (intro allI impI)
    fix a b assume ab: "a \<le> b \<and> b < length xs \<and> h < xs ! a"
    then have "xs ! a \<le> xs ! b" using assms(1) by (simp add: sorted_nth_mono)
    with ab show "h < xs ! b" by simp
  qed
  note sp = Search_spec [OF mono, folded r_def]
  from sp show "r \<le> length xs" by simp
  from sp have below: "\<And>k. k < r \<Longrightarrow> \<not> h < xs ! k" by blast
  from sp have above: "\<And>k. r \<le> k \<Longrightarrow> k < length xs \<Longrightarrow> h < xs ! k" by blast
  {
    assume rl: "r < length xs"
    have mem: "xs ! r \<in> {k \<in> set xs. h < k}"
      using rl above [of r] by simp
    have least: "xs ! r \<le> y" if "y \<in> {k \<in> set xs. h < k}" for y
    proof -
      from that obtain j where j: "j < length xs" "xs ! j = y" "h < y"
        by (auto simp: in_set_conv_nth)
      then have "\<not> j < r" using below [of j] by auto
      then have "r \<le> j" by simp
      then show ?thesis using j assms(1) by (auto simp: sorted_nth_mono)
    qed
    have "Min {k \<in> set xs. h < k} = xs ! r"
      by (rule Min_eqI) (use mem least in auto)
    then show "(\<exists>k\<in>set xs. h < k) \<and> xs ! r = Min {k \<in> set xs. h < k}"
      using mem by auto
  }
  {
    assume re: "r = length xs"
    show "\<not> (\<exists>k\<in>set xs. h < k)"
    proof
      assume "\<exists>k\<in>set xs. h < k"
      then obtain j where "j < length xs" "h < xs ! j"
        by (auto simp: in_set_conv_nth)
      then show False using below [of j] re by simp
    qed
  }
qed

lemma Search_le_sorted_desc:
  fixes h :: int
  assumes "sorted_wrt (\<ge>) rv"
  defines "r \<equiv> Search (length rv) (\<lambda>i. rv ! i \<le> h)"
  shows "r \<le> length rv"
    and "r < length rv \<Longrightarrow> (\<exists>k\<in>set rv. k \<le> h) \<and> rv ! r = Max {k \<in> set rv. k \<le> (h::int)}"
    and "r = length rv \<Longrightarrow> \<not> (\<exists>k\<in>set rv. k \<le> h)"
proof -
  have desc: "\<And>a b. a \<le> b \<Longrightarrow> b < length rv \<Longrightarrow> rv ! b \<le> rv ! a"
  proof -
    fix a b :: nat assume "a \<le> b" "b < length rv"
    then show "rv ! b \<le> rv ! a"
      using assms(1) by (cases "a = b") (auto simp: sorted_wrt_iff_nth_less)
  qed
  have mono: "\<forall>a b. a \<le> b \<and> b < length rv \<and> rv ! a \<le> h \<longrightarrow> rv ! b \<le> h"
  proof (intro allI impI)
    fix a b assume ab: "a \<le> b \<and> b < length rv \<and> rv ! a \<le> h"
    then have "rv ! b \<le> rv ! a" using desc by blast
    with ab show "rv ! b \<le> h" by simp
  qed
  note sp = Search_spec [OF mono, folded r_def]
  from sp show "r \<le> length rv" by simp
  from sp have below: "\<And>k. k < r \<Longrightarrow> \<not> rv ! k \<le> h" by blast
  from sp have above: "\<And>k. r \<le> k \<Longrightarrow> k < length rv \<Longrightarrow> rv ! k \<le> h" by blast
  {
    assume rl: "r < length rv"
    have mem: "rv ! r \<in> {k \<in> set rv. k \<le> h}"
      using rl above [of r] by simp
    have greatest: "y \<le> rv ! r" if "y \<in> {k \<in> set rv. k \<le> h}" for y
    proof -
      from that obtain j where j: "j < length rv" "rv ! j = y" "y \<le> h"
        by (auto simp: in_set_conv_nth)
      then have "\<not> j < r" using below [of j] by auto
      then have "r \<le> j" by simp
      then show ?thesis using j desc [of r j] by auto
    qed
    have "Max {k \<in> set rv. k \<le> h} = rv ! r"
      by (rule Max_eqI) (use mem greatest in auto)
    then show "(\<exists>k\<in>set rv. k \<le> h) \<and> rv ! r = Max {k \<in> set rv. k \<le> h}"
      using mem by auto
  }
  {
    assume re: "r = length rv"
    show "\<not> (\<exists>k\<in>set rv. k \<le> h)"
    proof
      assume "\<exists>k\<in>set rv. k \<le> h"
      then obtain j where "j < length rv" "rv ! j \<le> h"
        by (auto simp: in_set_conv_nth)
      then show False using below [of j] re by simp
    qed
  }
qed

lemma sorted_nth0_Min: "sorted xs \<Longrightarrow> xs \<noteq> [] \<Longrightarrow> xs ! 0 = Min (set (xs::int list))"
  by (cases xs) (auto intro!: Min_eqI [symmetric])

lemma SortReverse_props:
  "sorted_wrt (\<ge>) (SortReverse a)" "set (SortReverse a) = set a"
  "length (SortReverse a) = length a"
  by (simp_all add: SortReverse_def sorted_wrt_rev)

lemma sorted_desc_nth0_Max:
  "sorted_wrt (\<ge>) rv \<Longrightarrow> rv \<noteq> [] \<Longrightarrow> rv ! 0 = Max (set (rv::int list))"
  by (cases rv) (auto intro!: Max_eqI [symmetric])

lemma sorted_desc_last_Min:
  "sorted_wrt (\<ge>) rv \<Longrightarrow> rv \<noteq> [] \<Longrightarrow> rv ! (length rv - 1) = Min (set (rv::int list))"
proof -
  assume a: "sorted_wrt (\<ge>) rv" "rv \<noteq> []"
  then have "sorted (rev rv)" by (simp add: sorted_wrt_rev)
  then have "rev rv ! 0 = Min (set (rev rv))"
    using a(2) by (intro sorted_nth0_Min) simp_all
  then show ?thesis using a(2) by (simp add: rev_nth)
qed

lemma index_slice_nat:
  "i < length a \<Longrightarrow> index_slice a (int i) = Inr (a ! i)"
  by (simp add: index_slice_def)

lemma index_slice_last:
  "a \<noteq> [] \<Longrightarrow> index_slice a (int (length a) - 1) = Inr (a ! (length a - 1))"
  by (cases a) (simp_all add: index_slice_def)

lemma next_spec:
  assumes "sorted (keys m)" and "keys m \<noteq> []"
  shows "next m h =
         Inr (if \<exists>k\<in>set (keys m). h < k then Min {k \<in> set (keys m). h < k}
              else Min (set (keys m)))"
proof -
  let ?xs = "keys m"
  let ?r = "Search (length ?xs) (\<lambda>i. ?xs ! i > h)"
  note sp = Search_gt_sorted [OF assms(1), of h]
  show ?thesis
  proof (cases "?r = length ?xs")
    case True
    then have "\<not> (\<exists>k\<in>set ?xs. h < k)" using sp(3) by blast
    moreover have "next m h = Inr (?xs ! 0)"
      using True assms(2) index_slice_nat [of 0 ?xs] by (simp add: next_def Let_def)
    ultimately show ?thesis
      using sorted_nth0_Min [OF assms] by simp
  next
    case False
    then have rl: "?r < length ?xs" using sp(1) by simp
    then have "next m h = Inr (?xs ! ?r)"
      using False index_slice_nat [of ?r ?xs] by (simp add: next_def Let_def)
    then show ?thesis using sp(2) [OF rl] by simp
  qed
qed

lemma prev_spec:
  assumes "keys m \<noteq> []"
  shows "prev m h =
         Inr (if \<exists>k\<in>set (keys m). k \<le> h then Max {k \<in> set (keys m). k \<le> h}
              else Max (set (keys m)))"
proof -
  let ?rv = "SortReverse (keys m)"
  let ?r = "Search (length ?rv) (\<lambda>i. ?rv ! i \<le> h)"
  note sp = Search_le_sorted_desc [OF SortReverse_props(1), of "keys m" h]
  have ne: "?rv \<noteq> []" using assms SortReverse_props(3) [of "keys m"] by auto
  show ?thesis
  proof (cases "?r = length ?rv")
    case True
    then have "\<not> (\<exists>k\<in>set ?rv. k \<le> h)" using sp(3) by blast
    moreover have "prev m h = Inr (?rv ! 0)"
      using True ne index_slice_nat [of 0 ?rv] by (simp add: prev_def Let_def)
    ultimately show ?thesis
      using sorted_desc_nth0_Max [OF SortReverse_props(1) ne]
      by (simp add: SortReverse_props(2))
  next
    case False
    then have rl: "?r < length ?rv" using sp(1) by simp
    then have "prev m h = Inr (?rv ! ?r)"
      using False index_slice_nat [of ?r ?rv] by (simp add: prev_def Let_def)
    then show ?thesis using sp(2) [OF rl] by (simp add: SortReverse_props(2))
  qed
qed

lemma prev_1_spec:
  assumes "keys m \<noteq> []"
  shows "prev_1 m h =
         Inr (if \<exists>k\<in>set (keys m). k \<le> h then Max {k \<in> set (keys m). k \<le> h}
              else Min (set (keys m)))"
proof -
  let ?rv = "SortReverse (keys m)"
  let ?r = "Search (length ?rv) (\<lambda>i. ?rv ! i \<le> h)"
  note sp = Search_le_sorted_desc [OF SortReverse_props(1), of "keys m" h]
  have ne: "?rv \<noteq> []" using assms SortReverse_props(3) [of "keys m"] by auto
  show ?thesis
  proof (cases "?r = length ?rv")
    case True
    then have "\<not> (\<exists>k\<in>set ?rv. k \<le> h)" using sp(3) by blast
    moreover have "prev_1 m h = index_slice ?rv (int (length ?rv) - 1)"
      using True by (simp add: prev_1_def Let_def)
    then have "prev_1 m h = Inr (?rv ! (length ?rv - 1))"
      using index_slice_last [OF ne] by simp
    ultimately show ?thesis
      using sorted_desc_last_Min [OF SortReverse_props(1) ne]
      by (simp add: SortReverse_props(2))
  next
    case False
    then have rl: "?r < length ?rv" using sp(1) by simp
    then have "prev_1 m h = Inr (?rv ! ?r)"
      using False index_slice_nat [of ?r ?rv] by (simp add: prev_1_def Let_def)
    then show ?thesis using sp(2) [OF rl] by (simp add: SortReverse_props(2))
  qed
qed

section \<open>Mutations and the ring invariant\<close>

lemma Hash_bounds: "0 \<le> Hash m key \<and> Hash m key < 2 ^ 32"
  using uint_bounded [of "hash m (bytes key)"] by (simp add: Hash_def)

lemma Add_hash [simp]: "hash (fst (Add m key)) = hash m"
  by (simp add: Add_def Let_def)

lemma Add_Hash [simp]: "Hash (fst (Add m key)) k = Hash m k"
  by (simp add: Hash_def)

lemma Add_snd [simp]: "snd (Add m key) = Hash m key"
  by (simp add: Add_def Let_def)

lemma Add_keys:
  "keys (fst (Add m key)) =
     (if hashMap m (Hash m key) = None then sort (keys m @ [Hash m key]) else keys m)"
  by (simp add: Add_def Let_def Ints_def)

lemma Add_hashMap [simp]:
  "hashMap (fst (Add m key)) = (hashMap m)(Hash m key \<mapsto> key)"
  by (simp add: Add_def Let_def)

lemma Remove_hash [simp]: "hash (Remove m key) = hash m"
  by (simp add: Remove_def Let_def)

lemma Remove_Hash [simp]: "Hash (Remove m key) k = Hash m k"
  by (simp add: Hash_def)

lemma Remove_hashMap [simp]:
  "hashMap (Remove m key) = (hashMap m)(Hash m key := None)"
  by (simp add: Remove_def Let_def)

lemma Remove_keys:
  "keys (Remove m key) =
     sort (if SearchInts (keys m) (Hash m key) < length (keys m) \<and>
              keys m ! SearchInts (keys m) (Hash m key) = Hash m key
           then take (SearchInts (keys m) (Hash m key)) (keys m) @
                drop (SearchInts (keys m) (Hash m key) + 1) (keys m)
           else keys m)"
  by (simp add: Remove_def Let_def Ints_def)

lemma set_take_drop_Suc:
  "i < length xs \<Longrightarrow> set (take i xs @ drop (i + 1) xs) \<union> {xs ! i} = set xs"
proof -
  assume "i < length xs"
  then have "take i xs @ xs ! i # drop (Suc i) xs = xs"
    by (rule id_take_nth_drop [symmetric])
  then have "set (take i xs @ xs ! i # drop (Suc i) xs) = set xs"
    by (rule arg_cong)
  then show ?thesis by auto
qed

lemma Remove_keys_frame:
  assumes "p \<noteq> Hash m key"
  shows "p \<in> set (keys (Remove m key)) \<longleftrightarrow> p \<in> set (keys m)"
proof (cases "SearchInts (keys m) (Hash m key) < length (keys m) \<and>
              keys m ! SearchInts (keys m) (Hash m key) = Hash m key")
  case True
  then show ?thesis
    using set_take_drop_Suc [of "SearchInts (keys m) (Hash m key)" "keys m"] assms
    by (auto simp: Remove_keys)
next
  case False
  then show ?thesis by (auto simp: Remove_keys)
qed

lemma SearchInts_sorted:
  assumes "sorted xs" and "x \<in> set xs"
  shows "SearchInts xs x < length xs \<and> xs ! SearchInts xs x = x"
proof -
  let ?r = "SearchInts xs x"
  have mono: "\<forall>a b. a \<le> b \<and> b < length xs \<and> x \<le> xs ! a \<longrightarrow> x \<le> xs ! b"
  proof (intro allI impI)
    fix a b assume ab: "a \<le> b \<and> b < length xs \<and> x \<le> xs ! a"
    then have "xs ! a \<le> xs ! b" using assms(1) by (simp add: sorted_nth_mono)
    with ab show "x \<le> xs ! b" by simp
  qed
  note sp = Search_spec [OF mono, folded SearchInts_def]
  from assms(2) obtain j where j: "j < length xs" "xs ! j = x"
    by (auto simp: in_set_conv_nth)
  have "\<not> j < ?r" using sp j by auto
  then have rj: "?r \<le> j" by simp
  then have rl: "?r < length xs" using j by simp
  have "x \<le> xs ! ?r" using sp rl by blast
  moreover have "xs ! ?r \<le> xs ! j" by (rule sorted_nth_mono [OF assms(1) rj j(1)])
  ultimately show ?thesis using rl j(2) by simp
qed

lemma strict_sorted_remove_nth:
  fixes xs :: "int list"
  assumes "sorted_wrt (<) xs" and "i < length xs"
  shows "sorted_wrt (<) (take i xs @ drop (i + 1) xs)"
    and "set (take i xs @ drop (i + 1) xs) = set xs - {xs ! (i::nat)}"
proof -
  have "sorted_wrt (<) (take i xs @ xs ! i # drop (Suc i) xs)"
    by (rule subst [where P = "sorted_wrt (<)", OF id_take_nth_drop [OF assms(2)] assms(1)])
  then have s: "sorted_wrt (<) (take i xs @ xs ! i # drop (i + 1) xs)"
    by simp
  then show "sorted_wrt (<) (take i xs @ drop (i + 1) xs)"
    by (auto simp: sorted_wrt_append)
  from s have lo: "\<forall>x\<in>set (take i xs). x < xs ! i"
    and hi: "\<forall>y\<in>set (drop (i + 1) xs). xs ! i < y"
    by (simp_all add: sorted_wrt_append)
  have "xs ! i \<notin> set (take i xs)"
  proof
    assume "xs ! i \<in> set (take i xs)"
    with lo have "xs ! i < xs ! i" by (rule bspec)
    then show False by simp
  qed
  moreover have "xs ! i \<notin> set (drop (i + 1) xs)"
  proof
    assume "xs ! i \<in> set (drop (i + 1) xs)"
    with hi have "xs ! i < xs ! i" by (rule bspec)
    then show False by simp
  qed
  ultimately have "xs ! i \<notin> set (take i xs @ drop (i + 1) xs)"
    by simp
  then show "set (take i xs @ drop (i + 1) xs) = set xs - {xs ! i}"
    using set_take_drop_Suc [OF assms(2)] by auto
qed

lemma sort_strict_sorted: "sorted_wrt (<) xs \<Longrightarrow> sort xs = (xs::int list)"
  by (simp add: strict_sorted_iff sort_key_id_if_sorted)

lemma ring_inv_New: "ring_inv (New c fn)"
  by (simp add: ring_inv_def New_def)

lemma ring_inv_Add:
  assumes "ring_inv m"
  shows "ring_inv (fst (Add m key))"
proof -
  let ?h = "Hash m key"
  from assms have inv: "sorted_wrt (<) (keys m)" "set (keys m) = dom (hashMap m)"
    "\<And>p k. hashMap m p = Some k \<Longrightarrow> Hash m k = p"
    by (auto simp: ring_inv_def)
  have owners: "\<forall>p k. hashMap (fst (Add m key)) p = Some k \<longrightarrow> Hash (fst (Add m key)) k = p"
    using inv(3) by (auto split: if_splits)
  show ?thesis
  proof (cases "hashMap m ?h = None")
    case True
    then have "?h \<notin> set (keys m)" using inv(2) by auto
    then have "sorted_wrt (<) (sort (keys m @ [?h]))"
      using inv(1) by (simp add: strict_sorted_iff)
    moreover have "set (sort (keys m @ [?h])) = dom ((hashMap m)(?h \<mapsto> key))"
      using inv(2) by auto
    moreover have "keys (fst (Add m key)) = sort (keys m @ [?h])"
      using True by (simp add: Add_keys)
    ultimately have "sorted_wrt (<) (keys (fst (Add m key)))"
      and "set (keys (fst (Add m key))) = dom (hashMap (fst (Add m key)))"
      by simp_all
    then show ?thesis
      unfolding ring_inv_def using owners by (intro conjI)
  next
    case False
    then have "?h \<in> dom (hashMap m)" by auto
    then have "set (keys m) = dom ((hashMap m)(?h \<mapsto> key))"
      using inv(2) by auto
    moreover have "keys (fst (Add m key)) = keys m"
      using False by (auto simp: Add_keys)
    ultimately have "sorted_wrt (<) (keys (fst (Add m key)))"
      and "set (keys (fst (Add m key))) = dom (hashMap (fst (Add m key)))"
      using inv(1) by simp_all
    then show ?thesis
      unfolding ring_inv_def using owners by (intro conjI)
  qed
qed

lemma Remove_keys_inv:
  assumes "sorted_wrt (<) (keys m)"
  shows "sorted_wrt (<) (keys (Remove m key))"
    and "set (keys (Remove m key)) = set (keys m) - {Hash m key}"
proof -
  let ?h = "Hash m key"
  let ?i = "SearchInts (keys m) ?h"
  have srt: "sorted (keys m)" using assms by (simp add: strict_sorted_iff)
  show "sorted_wrt (<) (keys (Remove m key))"
    using assms strict_sorted_remove_nth(1) [OF assms, of ?i]
    by (auto simp: Remove_keys sort_strict_sorted)
  show "set (keys (Remove m key)) = set (keys m) - {?h}"
  proof (cases "?h \<in> set (keys m)")
    case True
    from SearchInts_sorted [OF srt True] have f: "?i < length (keys m)" "keys m ! ?i = ?h"
      by simp_all
    then show ?thesis
      using strict_sorted_remove_nth(2) [OF assms f(1)] by (simp add: Remove_keys)
  next
    case False
    have neg: "\<not> (?i < length (keys m) \<and> keys m ! ?i = ?h)"
    proof
      assume a: "?i < length (keys m) \<and> keys m ! ?i = ?h"
      then have "keys m ! ?i \<in> set (keys m)" by (intro nth_mem) simp
      with a False show False by simp
    qed
    have "keys (Remove m key) = sort (keys m)"
      by (subst Remove_keys) (simp only: neg if_False)
    then show ?thesis using False by simp
  qed
qed

lemma ring_inv_Remove:
  assumes "ring_inv m"
  shows "ring_inv (Remove m key)"
proof -
  from assms have inv: "sorted_wrt (<) (keys m)" "set (keys m) = dom (hashMap m)"
    "\<And>p k. hashMap m p = Some k \<Longrightarrow> Hash m k = p"
    by (auto simp: ring_inv_def)
  have owners: "\<forall>p k. hashMap (Remove m key) p = Some k \<longrightarrow> Hash (Remove m key) k = p"
    using inv(3) by (auto split: if_splits)
  have "set (keys (Remove m key)) = dom (hashMap (Remove m key))"
    using Remove_keys_inv(2) [OF inv(1)] inv(2) by auto
  then show ?thesis
    unfolding ring_inv_def using Remove_keys_inv(1) [OF inv(1)] owners by (intro conjI)
qed

lemma ring_inv_apply_op: "ring_inv m \<Longrightarrow> ring_inv (apply_op m x)"
proof (cases x)
  case (OpAdd key)
  assume "ring_inv m"
  then show ?thesis unfolding OpAdd apply_op.simps by (rule ring_inv_Add)
next
  case (OpRemove key)
  assume "ring_inv m"
  then show ?thesis unfolding OpRemove apply_op.simps by (rule ring_inv_Remove)
qed

lemma ring_inv_run: "ring_inv m \<Longrightarrow> ring_inv (run m ops)"
proof (induction ops arbitrary: m)
  case Nil
  then show ?case by simp
next
  case (Cons x xs)
  have "ring_inv (apply_op m x)" by (rule ring_inv_apply_op [OF Cons.prems])
  then have "ring_inv (run (apply_op m x) xs)" by (rule Cons.IH)
  then show ?case by simp
qed

section \<open>Lookups\<close>

lemma next_Inr:
  assumes "keys m \<noteq> []"
  shows "\<exists>p. next m h = Inr p \<and> p \<in> set (keys m)"
proof -
  let ?xs = "keys m"
  let ?r = "Search (length ?xs) (\<lambda>i. ?xs ! i > h)"
  let ?i = "if ?r = length ?xs then 0 else ?r"
  have "?r \<le> length ?xs" by (rule Search_le)
  then have il: "?i < length ?xs" using assms by auto
  have "next m h = index_slice ?xs (int ?i)"
    by (simp add: next_def Let_def)
  then have "next m h = Inr (?xs ! ?i)"
    using index_slice_nat [OF il] by simp
  moreover have "?xs ! ?i \<in> set ?xs" using il by (rule nth_mem)
  ultimately show ?thesis by blast
qed

lemma NextN_loop_panics:
  "keys m \<noteq> [] \<Longrightarrow> 0 \<le> i \<Longrightarrow> i \<le> count \<Longrightarrow> length locations = nat count \<Longrightarrow>
   NextN_loop m locations h i count = Inl (IndexOutOfRange count (nat count))"
proof (induction m locations h i count rule: NextN_loop.induct)
  case (1 m locations h i count)
  from next_Inr [OF "1.prems"(1)] obtain h' where h': "next m h = Inr h'" by blast
  show ?case
  proof (cases "i < count")
    case True
    then have inb: "0 \<le> i \<and> nat i < length locations"
      using "1.prems" by auto
    have step: "NextN_loop m locations h i count =
                NextN_loop m (locations[nat i := index_map (hashMap m) h']) h' (i + 1) count"
      using "1.prems"(3) h' inb by (simp add: NextN_loop.simps [of m locations h i count])
    have "NextN_loop m (locations[nat i := index_map (hashMap m) h']) h' (i + 1) count =
          Inl (IndexOutOfRange count (nat count))"
      using "1.prems" True by (intro "1.IH" [OF "1.prems"(3) h' inb]) simp_all
    then show ?thesis unfolding step .
  next
    case False
    then have eq: "i = count" using "1.prems"(3) by simp
    then have "\<not> nat i < length locations" using "1.prems"(4) by simp
    then have "NextN_loop m locations h i count = Inl (IndexOutOfRange i (length locations))"
      using "1.prems"(3) h' by (simp add: NextN_loop.simps [of m locations h i count])
    then show ?thesis using eq "1.prems"(4) by simp
  qed
qed

lemma keys_bounds:
  assumes "ring_inv m" and "p \<in> set (keys m)"
  shows "0 \<le> p \<and> p < 2 ^ 32"
proof -
  from assms have "p \<in> dom (hashMap m)" by (simp add: ring_inv_def)
  then obtain k where "hashMap m p = Some k" by blast
  with assms(1) have "Hash m k = p" unfolding ring_inv_def by blast
  then show ?thesis using Hash_bounds [of m k] by simp
qed

lemma count_list_distinct:
  "distinct xs \<Longrightarrow> x \<in> set xs \<Longrightarrow> count_list xs x = 1"
  by (induction xs) (auto simp: count_list_0_iff)

lemma Next_successor:
  assumes "sorted (keys m)" and "keys m \<noteq> []"
  shows "Next m key =
         Inr (index_map (hashMap m)
               (if \<exists>k\<in>set (keys m). Hash m key < k
                then Min {k \<in> set (keys m). Hash m key < k}
                else Min (set (keys m))))"
  using assms(2) by (simp add: Next_def IsEmpty_def next_spec [OF assms])

lemma index_map_Some: "hashMap m p = Some s \<Longrightarrow> index_map (hashMap m) p = s"
  by (simp add: index_map_def)

lemma next_differs:
  assumes "sorted_wrt (<) (keys m)" and "h \<in> set (keys m)" and "2 \<le> length (keys m)"
    and "next m h = Inr p"
  shows "p \<noteq> h"
proof (cases "\<exists>k\<in>set (keys m). h < k")
  case True
  have srt: "sorted (keys m)" using assms(1) by (simp add: strict_sorted_iff)
  have ne: "keys m \<noteq> []" using assms(2) by auto
  have fin: "finite {k \<in> set (keys m). h < k}" by simp
  have "{k \<in> set (keys m). h < k} \<noteq> {}" using True by blast
  then have "Min {k \<in> set (keys m). h < k} \<in> {k \<in> set (keys m). h < k}"
    using fin by (rule Min_in [rotated])
  then have "h < Min {k \<in> set (keys m). h < k}" by simp
  moreover have "p = Min {k \<in> set (keys m). h < k}"
    using assms(4) True by (simp add: next_spec [OF srt ne])
  ultimately show ?thesis by simp
next
  case False
  have srt: "sorted (keys m)" and dist: "distinct (keys m)"
    using assms(1) by (simp_all add: strict_sorted_iff)
  have ne: "keys m \<noteq> []" using assms(2) by auto
  have p: "p = Min (set (keys m))"
    using assms(4) False by (simp add: next_spec [OF srt ne])
  have "card (set (keys m)) \<ge> 2"
    using dist assms(3) by (simp add: distinct_card)
  then have "set (keys m) \<noteq> {h}" by auto
  then obtain k where k: "k \<in> set (keys m)" "k \<noteq> h" using assms(2) by blast
  then have "k < h" using False by force
  moreover have "Min (set (keys m)) \<le> k" using k(1) by simp
  ultimately show ?thesis using p by simp
qed

lemma apply_op_hash [simp]: "hash (apply_op m x) = hash m"
  by (cases x) simp_all

lemma run_hash [simp]: "hash (run m ops) = hash m"
  by (induction ops arbitrary: m) simp_all

lemma ring_inv_distinct: "ring_inv m \<Longrightarrow> distinct (keys m)"
  unfolding ring_inv_def strict_sorted_iff by blast

lemma ring_inv_dom: "ring_inv m \<Longrightarrow> set (keys m) = dom (hashMap m)"
  unfolding ring_inv_def by blast

lemma Add_keys_nonempty:
  assumes "set (keys m) = dom (hashMap m)"
  shows "keys (fst (Add m k)) \<noteq> []"
proof (cases "hashMap m (Hash m k) = None")
  case True
  then have "keys (fst (Add m k)) = sort (keys m @ [Hash m k])" by (simp add: Add_keys)
  then have "length (keys (fst (Add m k))) = length (keys m) + 1" by simp
  then show ?thesis by auto
next
  case False
  then have "Hash m k \<in> set (keys m)" using assms by auto
  moreover have "keys (fst (Add m k)) = keys m" using False by (auto simp: Add_keys)
  ultimately show ?thesis by auto
qed

lemma Add_idempotent: "Add (fst (Add m k)) k = Add m k"
proof -
  let ?m1 = "fst (Add m k)"
  have "hashMap ?m1 (Hash ?m1 k) \<noteq> None" by simp
  then have "keys (fst (Add ?m1 k)) = keys ?m1"
    by (auto simp: Add_keys)
  moreover have "hashMap (fst (Add ?m1 k)) = hashMap ?m1" by simp
  moreover have "hash (fst (Add ?m1 k)) = hash ?m1" by simp
  moreover have "Consistent.more (fst (Add ?m1 k)) = Consistent.more ?m1"
    by (simp add: Add_def Let_def)
  ultimately have "fst (Add ?m1 k) = ?m1" by (intro Consistent.equality)
  moreover have "snd (Add ?m1 k) = snd (Add m k)" by simp
  ultimately show ?thesis by (simp add: prod_eq_iff)
qed

lemma keys_New: "keys (New c fn) = []"
  by (simp add: New_def)

section \<open>Concrete rings, evaluated\<close>

text \<open>
  The rings \<open>ring_A\<close>, \<open>ring_AC\<close> and \<open>ring_ABC\<close> hold the members ''A'', ''B'' and
  ''C'' at the positions 65, 66 and 67 of their byte sums.
\<close>

lemma keys_ring_A: "keys ring_A = [65]"
  by code_simp

lemma keys_ring_AC: "keys ring_AC = [65, 67]"
  by code_simp

lemma keys_ring_ABC: "keys ring_ABC = [65, 66, 67]"
  by code_simp

lemma hash_ring_A: "hash ring_A = byte_sum"
  by (simp add: ring_A_def New_def)

lemma hash_ring_AC: "hash ring_AC = byte_sum"
  by (simp add: ring_AC_def New_def)

lemma hash_ring_ABC: "hash ring_ABC = byte_sum"
  by (simp add: ring_ABC_def New_def)

lemma hashMap_ring_A: "hashMap ring_A = [65 \<mapsto> ''A'']"
  by (simp add: ring_A_def New_def Add_def Let_def Hash_def bytes_def byte_sum_def)

lemma hashMap_ring_AC: "hashMap ring_AC = [67 \<mapsto> ''C'', 65 \<mapsto> ''A'']"
  by (simp add: ring_AC_def New_def Add_def Let_def Hash_def bytes_def byte_sum_def)

lemma hashMap_ring_ABC: "hashMap ring_ABC = [66 \<mapsto> ''B'', 67 \<mapsto> ''C'', 65 \<mapsto> ''A'']"
  by (simp add: ring_ABC_def New_def Add_def Let_def Hash_def bytes_def byte_sum_def)

lemma ring_inv_ring_A: "ring_inv ring_A"
  by (auto simp: ring_inv_def keys_ring_A hashMap_ring_A hash_ring_A Hash_def
      bytes_def byte_sum_def split: if_splits)

lemma ring_inv_ring_AC: "ring_inv ring_AC"
  by (auto simp: ring_inv_def keys_ring_AC hashMap_ring_AC hash_ring_AC Hash_def
      bytes_def byte_sum_def split: if_splits)

lemma ring_inv_ring_ABC: "ring_inv ring_ABC"
  by (auto simp: ring_inv_def keys_ring_ABC hashMap_ring_ABC hash_ring_ABC Hash_def
      bytes_def byte_sum_def split: if_splits)

lemma Hash_ring_A_AC: "Hash ring_A ''AC'' = 132"
  by code_simp

lemma Hash_ring_A_BB: "Hash ring_A ''BB'' = 132"
  by code_simp

lemma Hash_ring_AC_C: "Hash ring_AC ''C'' = 67"
  by code_simp

lemma Hash_ring_ABC_B: "Hash ring_ABC ''B'' = 66"
  by code_simp

lemma prev_ring_ABC_65: "prev ring_ABC 65 = Inr 65"
  by code_simp

lemma Get_after_Add_AC_B: "Get (fst (Add ring_AC ''B'')) ''B'' = Inr ''C''"
  by code_simp

text \<open>
  The walk of \<^verbatim>\<open>PrevN\<close> from a position above every member: ''D'' hashes to 68,
  its predecessor is ''C'' at 67, then ''B'', then ''A'', then ''C'' again.
\<close>

lemma PrevN_ring_ABC_D: "PrevN ring_ABC ''D'' 4 = Inr [''C'', ''B'', ''A'', ''C'']"
  by code_simp

section \<open>The claims\<close>

text \<open>
  Claim C1. For every non-empty ring and every count \<open>\<ge> 1\<close>, \<^verbatim>\<open>NextN(key, count)\<close>
  should complete normally with exactly \<open>count\<close> owners. The loop of the code runs
  while \<^verbatim>\<open>i <= count\<close> over a slice of length \<open>count\<close>: on every non-empty ring and
  for every count \<open>\<ge> 0\<close> the write \<^verbatim>\<open>locations[count]\<close> panics, so no sequence is
  returned.
\<close>

theorem NextN_index_out_of_range:
  assumes "keys m \<noteq> []" and "0 \<le> count"
  shows "NextN m key count = Inl (IndexOutOfRange count (nat count))"
proof -
  have "make_strings count = Inr (replicate (nat count) [])"
    using assms(2) by (simp add: make_strings_def)
  then have "NextN m key count = NextN_loop m (replicate (nat count) []) (Hash m key) 0 count"
    using assms(1) by (simp add: NextN_def IsEmpty_def)
  also have "\<dots> = Inl (IndexOutOfRange count (nat count))"
    using assms by (intro NextN_loop_panics) simp_all
  finally show ?thesis .
qed

theorem NextN_index_out_of_range_witness:
  "keys ring_A \<noteq> [] \<and> (0::int) \<le> 1 \<and> NextN ring_A ''A'' 1 = Inl (IndexOutOfRange 1 1)"
  using NextN_index_out_of_range [of ring_A 1 "''A''"] by (simp add: keys_ring_A)

text \<open>
  Claim C2. For every non-empty ring and every position \<open>h\<close>, \<^verbatim>\<open>prev(h)\<close> returns the
  largest occupied position less than or equal to \<open>h\<close>. When no occupied position is
  at or below \<open>h\<close> the claim has it wrap to the smallest occupied position; the code
  (\<^verbatim>\<open>i = 0\<close> on the descending copy) wraps to the largest one. On the ring with
  positions 65 and 67, \<^verbatim>\<open>prev(10)\<close> is 67, not 65.
\<close>

theorem prev_wraps_to_largest_counterexample:
  "keys ring_AC = [65, 67] \<and> prev ring_AC 10 = Inr 67 \<and> prev ring_AC 10 \<noteq> Inr 65"
  by code_simp

text \<open>
  Claim C2, amended: for every non-empty ring and every position \<open>h\<close>, \<^verbatim>\<open>prev(h)\<close>
  returns the largest occupied position less than or equal to \<open>h\<close>, and when no
  occupied position is at or below \<open>h\<close> it wraps to the largest occupied position
  overall.
\<close>

theorem prev_largest_at_or_below:
  assumes "keys m \<noteq> []"
  shows "prev m h =
         Inr (if \<exists>k\<in>set (keys m). k \<le> h then Max {k \<in> set (keys m). k \<le> h}
              else Max (set (keys m)))"
  using assms by (rule prev_spec)

theorem prev_largest_at_or_below_witness:
  "keys ring_ABC \<noteq> [] \<and> prev ring_ABC 66 = Inr 66 \<and> prev ring_ABC 10 = Inr 67"
  using prev_largest_at_or_below [of ring_ABC 66] prev_largest_at_or_below [of ring_ABC 10]
  unfolding set_filter [symmetric] by (simp add: keys_ring_ABC)

text \<open>
  Claim C3. For every non-empty ring and every precomputed position \<open>h\<close>,
  \<^verbatim>\<open>GetFromHash(h)\<close> should return the member that \<^verbatim>\<open>Get\<close> assigns to a key whose
  hash is \<open>h\<close>, the owner of \<^verbatim>\<open>next(h)\<close>. \<^verbatim>\<open>GetFromHash\<close> looks the position up with
  \<^verbatim>\<open>prev\<close>: on the ring with ''A'' at 65 and ''C'' at 67, position 66 (the hash of
  ''B'') gives ''A'', while \<^verbatim>\<open>Get\<close> of ''B'' gives ''C'', the owner of \<^verbatim>\<open>next(66)\<close>.
\<close>

theorem GetFromHash_not_Get_counterexample:
  "Hash ring_AC ''B'' = 66 \<and> GetFromHash ring_AC 66 = Inr ''A'' \<and>
   Get ring_AC ''B'' = Inr ''C'' \<and> next ring_AC 66 = Inr 67"
  by code_simp

text \<open>
  Claim C3, amended: for every non-empty ring and every precomputed position \<open>h\<close>,
  \<^verbatim>\<open>GetFromHash(h)\<close> returns the same member that the \<^verbatim>\<open>Get\<close> of its own listing
  (lines 83-94, a lookup with \<^verbatim>\<open>prev\<close>) assigns to a key whose hash is \<open>h\<close>, namely
  the owner of that listing's \<^verbatim>\<open>prev(h)\<close>: the largest occupied position less than
  or equal to \<open>h\<close>, or, when no occupied position is at or below \<open>h\<close>, the smallest
  occupied position overall, which on sorted positions is \<^verbatim>\<open>next(h)\<close>.
\<close>

theorem GetFromHash_owner_of_prev:
  assumes "keys m \<noteq> []"
  shows "prev_1 m h =
           Inr (if \<exists>k\<in>set (keys m). k \<le> h then Max {k \<in> set (keys m). k \<le> h}
                else Min (set (keys m))) \<and>
         GetFromHash m h =
           Inr (index_map (hashMap m)
                 (if \<exists>k\<in>set (keys m). k \<le> h then Max {k \<in> set (keys m). k \<le> h}
                  else Min (set (keys m)))) \<and>
         Get_1 m key = GetFromHash m (Hash m key) \<and>
         (sorted (keys m) \<and> \<not> (\<exists>k\<in>set (keys m). k \<le> h) \<longrightarrow>
            next m h = Inr (Min (set (keys m))))"
proof (intro conjI impI)
  show p: "prev_1 m h =
           Inr (if \<exists>k\<in>set (keys m). k \<le> h then Max {k \<in> set (keys m). k \<le> h}
                else Min (set (keys m)))"
    by (rule prev_1_spec [OF assms])
  have "GetFromHash m h =
        (case prev_1 m h of Inl e \<Rightarrow> Inl e | Inr index \<Rightarrow> Inr (index_map (hashMap m) index))"
    using assms by (simp add: GetFromHash_def IsEmpty_def)
  then show "GetFromHash m h =
           Inr (index_map (hashMap m)
                 (if \<exists>k\<in>set (keys m). k \<le> h then Max {k \<in> set (keys m). k \<le> h}
                  else Min (set (keys m))))"
    unfolding p by simp
  show "Get_1 m key = GetFromHash m (Hash m key)"
    by (simp add: Get_1_def GetFromHash_def)
next
  assume a: "sorted (keys m) \<and> \<not> (\<exists>k\<in>set (keys m). k \<le> h)"
  then have srt: "sorted (keys m)" and above: "\<forall>k\<in>set (keys m). h < k" by auto
  have all: "{k \<in> set (keys m). h < k} = set (keys m)" using above by blast
  have "\<exists>k\<in>set (keys m). h < k" using above assms by (cases "keys m") simp_all
  then show "next m h = Inr (Min (set (keys m)))"
    unfolding next_spec [OF srt assms] all by simp
qed

theorem GetFromHash_owner_of_prev_witness:
  "keys ring_ABC \<noteq> [] \<and> prev_1 ring_ABC 66 = Inr 66 \<and> GetFromHash ring_ABC 66 = Inr ''B'' \<and>
   Get_1 ring_ABC ''B'' = Inr ''B'' \<and>
   keys ring_AC \<noteq> [] \<and> prev_1 ring_AC 10 = Inr 65 \<and> GetFromHash ring_AC 10 = Inr ''A'' \<and>
   sorted (keys ring_AC) \<and> next ring_AC 10 = Inr 65"
  using GetFromHash_owner_of_prev [of ring_ABC 66 "''B''"]
    GetFromHash_owner_of_prev [of ring_AC 10 "''B''"]
  unfolding set_filter [symmetric]
  by (simp add: keys_ring_ABC keys_ring_AC hashMap_ring_ABC hashMap_ring_AC Hash_ring_ABC_B
      index_map_def)

text \<open>
  Claim C4. For every ring state and every key, \<^verbatim>\<open>Get(key)\<close> equals \<^verbatim>\<open>Next(key)\<close>,
  the owner of the smallest occupied position strictly greater than the key's hash
  (wrapping to the smallest position). The claim concludes that a key whose hash
  equals an occupied position is never assigned to the member at that position; on
  a ring with a single member the successor of its position is that position, and
  the member is assigned to itself.
\<close>

theorem Get_single_member_counterexample:
  "keys ring_A = [65] \<and> Hash ring_A ''A'' = 65 \<and> hashMap ring_A 65 = Some ''A'' \<and>
   Get ring_A ''A'' = Inr ''A''"
  by code_simp

text \<open>
  Claim C4, amended: for every ring state and every key, \<^verbatim>\<open>Get(key)\<close> equals
  \<^verbatim>\<open>Next(key)\<close>; on a non-empty ring both return the owner of the smallest occupied
  position strictly greater than \<^verbatim>\<open>Hash(key)\<close> (wrapping to the smallest position
  overall), so on a ring with at least two occupied positions a key whose hash
  exactly equals an occupied position is assigned to that position's successor, not
  to the member at that position.
\<close>

theorem Get_is_Next_strict_successor:
  assumes "ring_inv m"
  shows "Get m key = Next m key \<and>
         (keys m \<noteq> [] \<longrightarrow>
            (\<exists>s. hashMap m (if \<exists>k\<in>set (keys m). Hash m key < k
                             then Min {k \<in> set (keys m). Hash m key < k}
                             else Min (set (keys m))) = Some s \<and>
                 Get m key = Inr s)) \<and>
         (Hash m key \<in> set (keys m) \<and> 2 \<le> length (keys m) \<longrightarrow>
            (\<exists>p. next m (Hash m key) = Inr p \<and> p \<noteq> Hash m key \<and>
                 Get m key = Inr (index_map (hashMap m) p) \<and>
                 Get m key \<noteq> Inr (index_map (hashMap m) (Hash m key))))"
proof (intro conjI impI)
  show "Get m key = Next m key" by (simp add: Get_def)
next
  assume ne: "keys m \<noteq> []"
  let ?q = "if \<exists>k\<in>set (keys m). Hash m key < k
            then Min {k \<in> set (keys m). Hash m key < k} else Min (set (keys m))"
  have srt: "sorted (keys m)" using assms by (simp add: ring_inv_def strict_sorted_iff)
  have nx: "next m (Hash m key) = Inr ?q" by (rule next_spec [OF srt ne])
  from next_Inr [OF ne, of "Hash m key"] have "?q \<in> set (keys m)" unfolding nx by simp
  then have "?q \<in> dom (hashMap m)" using assms by (simp add: ring_inv_def)
  then obtain s where s: "hashMap m ?q = Some s" by blast
  have "Get m key = Inr (index_map (hashMap m) ?q)"
    unfolding Get_def by (rule Next_successor [OF srt ne])
  then have "Get m key = Inr s" using index_map_Some [OF s] by simp
  with s show "\<exists>s. hashMap m ?q = Some s \<and> Get m key = Inr s" by blast
next
  assume occ: "Hash m key \<in> set (keys m) \<and> 2 \<le> length (keys m)"
  let ?h = "Hash m key"
  have strict: "sorted_wrt (<) (keys m)" and dm: "set (keys m) = dom (hashMap m)"
    and own: "\<And>p k. hashMap m p = Some k \<Longrightarrow> Hash m k = p"
    using assms unfolding ring_inv_def by blast+
  have ne: "keys m \<noteq> []" using occ by auto
  from next_Inr [OF ne, of ?h] obtain p where p: "next m ?h = Inr p" "p \<in> set (keys m)"
    by blast
  have neq: "p \<noteq> ?h" using strict occ p(1) by (intro next_differs [of m ?h p]) simp_all
  have get: "Get m key = Inr (index_map (hashMap m) p)"
    using ne p(1) by (simp add: Get_def Next_def IsEmpty_def)
  obtain s where s: "hashMap m p = Some s" using p(2) dm by blast
  obtain s' where s': "hashMap m ?h = Some s'" using occ dm by blast
  have "s \<noteq> s'" using own [OF s] own [OF s'] neq by auto
  then have "index_map (hashMap m) p \<noteq> index_map (hashMap m) ?h"
    using index_map_Some [OF s] index_map_Some [OF s'] by simp
  then have "Get m key \<noteq> Inr (index_map (hashMap m) ?h)" using get by simp
  with p(1) neq get
  show "\<exists>p. next m ?h = Inr p \<and> p \<noteq> ?h \<and> Get m key = Inr (index_map (hashMap m) p) \<and>
            Get m key \<noteq> Inr (index_map (hashMap m) ?h)"
    by blast
qed

theorem Get_is_Next_strict_successor_witness:
  "ring_inv ring_ABC \<and> keys ring_ABC \<noteq> [] \<and> Hash ring_ABC ''B'' \<in> set (keys ring_ABC) \<and>
   2 \<le> length (keys ring_ABC) \<and> Get ring_ABC ''B'' = Next ring_ABC ''B'' \<and>
   Get ring_ABC ''B'' = Inr ''C''"
  using Get_is_Next_strict_successor [OF ring_inv_ring_ABC, of "''B''"] ring_inv_ring_ABC
  unfolding set_filter [symmetric]
  by (auto simp: keys_ring_ABC hashMap_ring_ABC Hash_ring_ABC_B)

text \<open>
  Claim C5. For every host on a non-empty ring, \<^verbatim>\<open>Range(host)\<close> returns the pair
  \<open>(from, to)\<close> with \<open>to = Hash(host)\<close> and \<open>from = prev(to - 1) + 1\<close>; on an empty
  ring it returns \<open>(0, 0)\<close>.
\<close>

theorem Range_from_prev:
  "(keys m = [] \<longrightarrow> Range m host = Inr (0, 0)) \<and>
   (keys m \<noteq> [] \<longrightarrow>
      (\<exists>p. prev m (Hash m host - 1) = Inr p \<and> Range m host = Inr (p + 1, Hash m host)))"
proof (intro conjI impI)
  assume "keys m = []"
  then show "Range m host = Inr (0, 0)" by (simp add: Range_def IsEmpty_def)
next
  assume ne: "keys m \<noteq> []"
  from prev_spec [OF ne, of "Hash m host - 1"]
  obtain p where p: "prev m (Hash m host - 1) = Inr p" by blast
  then have "Range m host = Inr (p + 1, Hash m host)"
    using ne by (simp add: Range_def IsEmpty_def Let_def)
  with p show "\<exists>p. prev m (Hash m host - 1) = Inr p \<and> Range m host = Inr (p + 1, Hash m host)"
    by blast
qed

theorem Range_from_prev_witness:
  "keys (New byte_sum None) = [] \<and> Range (New byte_sum None) ''B'' = Inr (0, 0) \<and>
   keys ring_ABC \<noteq> [] \<and> Range ring_ABC ''B'' = Inr (66, 66)"
  using Range_from_prev [of ring_ABC "''B''"] Range_from_prev [of "New byte_sum None" "''B''"]
  by (simp add: keys_ring_ABC keys_New Hash_ring_ABC_B prev_ring_ABC_65)

text \<open>
  Claim C6. After every finite sequence of \<^verbatim>\<open>Add\<close> and \<^verbatim>\<open>Remove\<close> calls starting
  from the empty ring, the position sequence is strictly ascending with no
  duplicates, and its set of elements is exactly the key set of the
  position-to-owner map.
\<close>

theorem positions_sorted_and_key_set:
  "sorted_wrt (<) (keys (run (New c fn) ops)) \<and>
   distinct (keys (run (New c fn) ops)) \<and>
   set (keys (run (New c fn) ops)) = dom (hashMap (run (New c fn) ops))"
proof -
  have "ring_inv (run (New c fn) ops)"
    by (rule ring_inv_run [OF ring_inv_New])
  then show ?thesis
    by (simp add: ring_inv_def strict_sorted_iff)
qed

text \<open>
  Claim C7. For every ring state and every key \<open>k\<close>: immediately after \<^verbatim>\<open>Add(k)\<close>,
  \<^verbatim>\<open>Has(k)\<close> returns true and \<^verbatim>\<open>Get(k)\<close> returns the owner of \<^verbatim>\<open>next(Hash(k))\<close>; after
  a subsequent \<^verbatim>\<open>Remove(k)\<close>, \<^verbatim>\<open>Has(k)\<close> returns false.
\<close>

theorem Add_Has_Get_Remove_roundtrip:
  assumes "ring_inv m"
  shows "Has (fst (Add m k)) k \<and>
         (\<exists>p s. next (fst (Add m k)) (Hash (fst (Add m k)) k) = Inr p \<and>
                hashMap (fst (Add m k)) p = Some s \<and>
                Get (fst (Add m k)) k = Inr s) \<and>
         \<not> Has (Remove (fst (Add m k)) k) k"
proof (intro conjI)
  show "Has (fst (Add m k)) k" by (simp add: Has_def)
  show "\<not> Has (Remove (fst (Add m k)) k) k" by (simp add: Has_def)
  let ?m = "fst (Add m k)"
  have inv: "ring_inv ?m" by (rule ring_inv_Add [OF assms])
  then have dm: "set (keys ?m) = dom (hashMap ?m)" unfolding ring_inv_def by blast
  have ne: "keys ?m \<noteq> []"
    using assms by (intro Add_keys_nonempty) (simp add: ring_inv_def)
  from next_Inr [OF ne, of "Hash ?m k"] obtain p
    where p: "next ?m (Hash ?m k) = Inr p" "p \<in> set (keys ?m)" by blast
  then obtain s where s: "hashMap ?m p = Some s" using dm by blast
  have "Get ?m k = Inr (index_map (hashMap ?m) p)"
    using ne p(1) by (simp add: Get_def Next_def IsEmpty_def)
  then have "Get ?m k = Inr s" using index_map_Some [OF s] by simp
  with p(1) s
  show "\<exists>p s. next ?m (Hash ?m k) = Inr p \<and> hashMap ?m p = Some s \<and> Get ?m k = Inr s"
    by blast
qed

theorem Add_Has_Get_Remove_roundtrip_witness:
  "ring_inv ring_AC \<and> Has (fst (Add ring_AC ''B'')) ''B'' \<and>
   Get (fst (Add ring_AC ''B'')) ''B'' = Inr ''C'' \<and>
   \<not> Has (Remove (fst (Add ring_AC ''B'')) ''B'') ''B''"
  using Add_Has_Get_Remove_roundtrip [OF ring_inv_ring_AC, of "''B''"] ring_inv_ring_AC
    Get_after_Add_AC_B
  by simp

text \<open>
  Claim C8. For every two distinct keys \<open>k1\<close> and \<open>k2\<close> with \<open>Hash(k1) = Hash(k2)\<close>,
  after \<^verbatim>\<open>Add(k1)\<close> then \<^verbatim>\<open>Add(k2)\<close> the owner at that position is \<open>k2\<close>, the position
  occurs exactly once in the position set, and both \<^verbatim>\<open>Add\<close> calls return that same
  position; \<^verbatim>\<open>Add\<close> with the same key repeated is idempotent on the ring state.
\<close>

theorem Add_collision_overwrites_and_idempotent:
  "(ring_inv m \<and> k1 \<noteq> k2 \<and> Hash m k1 = Hash m k2 \<longrightarrow>
      hashMap (fst (Add (fst (Add m k1)) k2)) (Hash m k1) = Some k2 \<and>
      count_list (keys (fst (Add (fst (Add m k1)) k2))) (Hash m k1) = 1 \<and>
      snd (Add m k1) = Hash m k1 \<and>
      snd (Add (fst (Add m k1)) k2) = Hash m k1) \<and>
   Add (fst (Add m k)) k = Add m k"
proof (intro conjI impI)
  show "Add (fst (Add m k)) k = Add m k" by (rule Add_idempotent)
next
  assume a: "ring_inv m \<and> k1 \<noteq> k2 \<and> Hash m k1 = Hash m k2"
  then have inv: "ring_inv m" and eq: "Hash m k1 = Hash m k2" by simp_all
  let ?m1 = "fst (Add m k1)"
  let ?m2 = "fst (Add ?m1 k2)"
  show "hashMap ?m2 (Hash m k1) = Some k2" using eq by simp
  show "snd (Add m k1) = Hash m k1" by simp
  show "snd (Add ?m1 k2) = Hash m k1" using eq by simp
  have inv2: "ring_inv ?m2" by (intro ring_inv_Add inv)
  have "Hash m k1 \<in> dom (hashMap ?m2)" using eq by simp
  then have "Hash m k1 \<in> set (keys ?m2)"
    unfolding ring_inv_dom [OF inv2] .
  with ring_inv_distinct [OF inv2] show "count_list (keys ?m2) (Hash m k1) = 1"
    by (rule count_list_distinct)
qed

theorem Add_collision_overwrites_and_idempotent_witness:
  "ring_inv ring_A \<and> ''AC'' \<noteq> ''BB'' \<and> Hash ring_A ''AC'' = Hash ring_A ''BB'' \<and>
   hashMap (fst (Add (fst (Add ring_A ''AC'')) ''BB'')) 132 = Some ''BB'' \<and>
   count_list (keys (fst (Add (fst (Add ring_A ''AC'')) ''BB''))) 132 = 1 \<and>
   snd (Add ring_A ''AC'') = 132 \<and>
   snd (Add (fst (Add ring_A ''AC'')) ''BB'') = 132 \<and>
   Add (fst (Add ring_A '''')) '''' = Add ring_A ''''"
  using Add_collision_overwrites_and_idempotent [of ring_A "''AC''" "''BB''" "''''"]
    ring_inv_ring_A
  by (simp add: Hash_ring_A_AC Hash_ring_A_BB)

text \<open>
  Claim C9. On an empty ring every lookup returns its zero or empty sentinel
  instead of failing: \<^verbatim>\<open>Get\<close> and \<^verbatim>\<open>Next\<close> return the empty string, \<^verbatim>\<open>NextN\<close> and
  \<^verbatim>\<open>PrevN\<close> return the empty sequence, and \<^verbatim>\<open>Range\<close> returns \<open>(0, 0)\<close>; no lookup
  performs a search on the empty position set, which in \<^verbatim>\<open>next\<close> and \<^verbatim>\<open>prev\<close> ends
  in the panic of reading index 0 of an empty slice.
\<close>

theorem empty_ring_sentinels:
  assumes "IsEmpty m"
  shows "Get m key = Inr [] \<and> Next m key = Inr [] \<and>
         NextN m key count = Inr [] \<and> PrevN m key count = Inr [] \<and>
         Range m host = Inr (0, 0) \<and>
         next m h = Inl (IndexOutOfRange 0 0) \<and> prev m h = Inl (IndexOutOfRange 0 0)"
proof -
  from assms have e: "keys m = []" by (simp add: IsEmpty_def)
  have "Search 0 f = 0" for f
    using Search_le [of 0 f] by simp
  then have "next m h = Inl (IndexOutOfRange 0 0)" "prev m h = Inl (IndexOutOfRange 0 0)"
    using e by (simp_all add: next_def prev_def SortReverse_def index_slice_def)
  then show ?thesis
    using assms by (simp add: Get_def Next_def NextN_def PrevN_def Range_def)
qed

theorem empty_ring_sentinels_witness:
  "IsEmpty (New byte_sum None) \<and>
   Get (New byte_sum None) ''A'' = Inr [] \<and> Next (New byte_sum None) ''A'' = Inr [] \<and>
   NextN (New byte_sum None) ''A'' 2 = Inr [] \<and> PrevN (New byte_sum None) ''A'' 2 = Inr [] \<and>
   Range (New byte_sum None) ''A'' = Inr (0, 0)"
  using empty_ring_sentinels [of "New byte_sum None" "''A''" 2 "''A''" 0]
  by (simp add: IsEmpty_def keys_New)

text \<open>
  Claim C10. For every ring state and every key \<open>k\<close>, \<^verbatim>\<open>Add(k)\<close> and \<^verbatim>\<open>Remove(k)\<close>
  change nothing outside the single position \<open>Hash(k)\<close>: for every position \<open>p\<close>
  different from \<open>Hash(k)\<close>, the owner mapped to \<open>p\<close> and the membership of \<open>p\<close> in
  the position set are the same before and after the call.
\<close>

theorem Add_Remove_frame:
  assumes "p \<noteq> Hash m k"
  shows "hashMap (fst (Add m k)) p = hashMap m p \<and>
         (p \<in> set (keys (fst (Add m k))) \<longleftrightarrow> p \<in> set (keys m)) \<and>
         hashMap (Remove m k) p = hashMap m p \<and>
         (p \<in> set (keys (Remove m k)) \<longleftrightarrow> p \<in> set (keys m))"
proof (intro conjI)
  show "hashMap (fst (Add m k)) p = hashMap m p" using assms by simp
  show "p \<in> set (keys (fst (Add m k))) \<longleftrightarrow> p \<in> set (keys m)"
    using assms by (auto simp: Add_keys)
  show "hashMap (Remove m k) p = hashMap m p" using assms by simp
  show "p \<in> set (keys (Remove m k)) \<longleftrightarrow> p \<in> set (keys m)"
    using assms by (rule Remove_keys_frame)
qed

theorem Add_Remove_frame_witness:
  "(65::int) \<noteq> Hash ring_AC ''C'' \<and>
   hashMap (fst (Add ring_AC ''C'')) 65 = Some ''A'' \<and>
   65 \<in> set (keys (fst (Add ring_AC ''C''))) \<and>
   hashMap (Remove ring_AC ''C'') 65 = Some ''A'' \<and>
   65 \<in> set (keys (Remove ring_AC ''C''))"
  using Add_Remove_frame [of 65 ring_AC "''C''"]
  by (simp add: Hash_ring_AC_C hashMap_ring_AC keys_ring_AC)

end
